theory Spec2Isabelle
  imports Main "HOL-Library.Signed_Division"
begin

section \<open>Batch GCD: product tree, remainders and gcd extraction\<close>

text \<open>
  A shallow embedding of \<^verbatim>\<open>src/utils.cpp\<close> and of the entry point
  (\<^verbatim>\<open>src/unnamed/part_000\<close>).

  Modelling decisions:
  \<^item> \<^verbatim>\<open>mpz_class\<close> is an unbounded signed integer: \<open>int\<close>. GMP's \<^verbatim>\<open>/\<close> and
    \<^verbatim>\<open>%\<close> on \<^verbatim>\<open>mpz_class\<close> truncate towards zero (\<open>sdiv\<close>, \<open>smod\<close>) and raise
    a division-by-zero signal on a zero divisor; \<^verbatim>\<open>gcd\<close> is the non-negative gcd.
  \<^item> \<^verbatim>\<open>std::vector\<close> is a list. \<^verbatim>\<open>operator[]\<close> past the end is undefined
    behaviour in C++; the model returns the error \<open>OutOfRange\<close> there.
  \<^item> The global \<^verbatim>\<open>filesPerFloor\<close> and the directory \<^verbatim>\<open>data/product_tree\<close> are
    the two fields of the state. A file is addressed by its level and index (the path
    \<^verbatim>\<open>level<l>/<i>.gmp\<close> is injective in both); writing is assumed to succeed.
  \<^item> A file holds either the complete raw record of an integer, which
    \<^verbatim>\<open>mpz_inp_raw\<close> reads back as written by \<^verbatim>\<open>mpz_out_raw\<close>, or it ends
    inside the four-byte size field (\<open>Short\<close>, for instance an empty file), where
    \<^verbatim>\<open>mpz_inp_raw\<close> returns 0 and leaves its destination as it was.
  \<^item> \<^verbatim>\<open>fopen\<close> of a missing file returns the null stream, and \<^verbatim>\<open>fclose\<close> of the
    null stream is undefined behaviour: the error \<open>NullStream\<close>.
  \<^item> Vector lengths and loop counters are natural numbers (the source's
    \<^verbatim>\<open>unsigned int\<close> counters agree with them below \<open>2^32\<close> elements).
\<close>

subsection \<open>Data\<close>

type_synonym mpz = int

datatype error =
    DivisionByZero
  | IncompleteTree
  | OutOfRange
  | NullStream

datatype gmp_file = Raw mpz | Short

record state =
  filesPerFloor :: "nat list"
  disk :: "int \<times> int \<Rightarrow> gmp_file option"

subsection \<open>The integer library and the vector accesses\<close>

definition mpz_tdiv_r :: "mpz \<Rightarrow> mpz \<Rightarrow> error + mpz" where
  "mpz_tdiv_r n d = (if d = 0 then Inl DivisionByZero else Inr (n smod d))"

definition mpz_tdiv_q :: "mpz \<Rightarrow> mpz \<Rightarrow> error + mpz" where
  "mpz_tdiv_q n d = (if d = 0 then Inl DivisionByZero else Inr (n sdiv d))"

fun mpz_inp_raw :: "mpz \<Rightarrow> gmp_file \<Rightarrow> mpz" where
  "mpz_inp_raw rop (Raw n) = n"
| "mpz_inp_raw rop Short = rop"

text \<open>\<^verbatim>\<open>filesPerFloor[l]\<close> with an \<^verbatim>\<open>int\<close> index.\<close>

definition floor_at :: "nat list \<Rightarrow> int \<Rightarrow> error + nat" where
  "floor_at fs l = (if 0 \<le> l \<and> nat l < length fs then Inr (fs ! nat l) else Inl OutOfRange)"

subsection \<open>The level store\<close>

definition write_level_to_file :: "int \<Rightarrow> mpz list \<Rightarrow> state \<Rightarrow> state" where
  "write_level_to_file l X st =
     st\<lparr>disk := foldl (\<lambda>d i. d((l, int i) \<mapsto> Raw (X ! i))) (disk st) [0..<length X]\<rparr>"

definition read_variable_from_file :: "int \<Rightarrow> int \<Rightarrow> state \<Rightarrow> error + mpz" where
  "read_variable_from_file level index st =
     (case disk st (level, index) of
        None \<Rightarrow> Inl NullStream
      | Some f \<Rightarrow> Inr (mpz_inp_raw 0 f))"

text \<open>
  The loop of \<^verbatim>\<open>read_level_from_file\<close>: the buffer \<open>m\<close> (the source's \<^verbatim>\<open>mod\<close>) is
  initialised once and reused for every file.
\<close>

fun read_files :: "state \<Rightarrow> int \<Rightarrow> nat list \<Rightarrow> mpz \<Rightarrow> mpz list \<Rightarrow> error + mpz list" where
  "read_files st l [] m moduli = Inr moduli"
| "read_files st l (i # is) m moduli =
     (case disk st (l, int i) of
        None \<Rightarrow> Inl NullStream
      | Some f \<Rightarrow> (let m' = mpz_inp_raw m f in read_files st l is m' (moduli @ [m'])))"

text \<open>
  After the loop the source prints the bit size of \<^verbatim>\<open>(*moduli)[0]\<close>: an access past
  the end when no file was read.
\<close>

definition read_level_from_file :: "int \<Rightarrow> state \<Rightarrow> error + mpz list" where
  "read_level_from_file l st =
     (case floor_at (filesPerFloor st) l of
        Inl e \<Rightarrow> Inl e
      | Inr n \<Rightarrow>
          (case read_files st l [0..<n] 0 [] of
             Inl e \<Rightarrow> Inl e
           | Inr moduli \<Rightarrow> if moduli = [] then Inl OutOfRange else Inr moduli))"

subsection \<open>The product tree\<close>

text \<open>
  The multiplication loop \<^verbatim>\<open>for (i = 0; i < current_level.size()-1; i += 2)\<close>. It is
  only entered with at least two elements, where the unsigned \<^verbatim>\<open>size()-1\<close> does not wrap.
\<close>

function mult_loop :: "mpz list \<Rightarrow> nat \<Rightarrow> mpz list \<Rightarrow> mpz list" where
  "mult_loop current_level i new_level =
     (if i < length current_level - 1
      then mult_loop current_level (i + 2) (new_level @ [current_level ! i * current_level ! (i + 1)])
      else new_level)"
  by pat_completeness auto
termination
  by (relation "measure (\<lambda>(c, i, n). length c - i)") auto

declare mult_loop.simps [simp del]

definition next_level :: "mpz list \<Rightarrow> mpz list" where
  "next_level current_level =
     (let new_level = mult_loop current_level 0 []
      in if length current_level mod 2 \<noteq> 0 then new_level @ [last current_level] else new_level)"

text \<open>
  The \<^verbatim>\<open>while\<close> loop of \<^verbatim>\<open>product_tree\<close>. \<open>X\<close> is the caller's vector, which the
  first iteration swaps with an empty one.
\<close>

function product_tree_loop ::
  "state \<Rightarrow> mpz list \<Rightarrow> mpz list \<Rightarrow> int \<Rightarrow> state \<times> mpz list \<times> mpz list \<times> int" where
  "product_tree_loop st X current_level l =
     (if length current_level > 1 then
        (let st1 = st\<lparr>filesPerFloor := filesPerFloor st @ [length current_level]\<rparr>;
             st2 = write_level_to_file l current_level st1;
             new_level = next_level current_level;
             X' = (if l = 0 then [] else X)
         in product_tree_loop st2 X' new_level (l + 1))
      else (st, X, current_level, l))"
  by pat_completeness auto
termination
proof (relation "measure (\<lambda>(st, X, c, l). length c)")
  show "wf (measure (\<lambda>(st, X, c, l). length c))"
    by simp
next
  fix st :: state and X current_level :: "mpz list" and l :: int
    and st1 st2 :: state and new_level X' :: "mpz list"
  assume big: "1 < length current_level" and nl: "new_level = next_level current_level"
  have len: "length (mult_loop c i n) = length n + (length c - i) div 2" for c i n
  proof (induction c i n rule: mult_loop.induct)
    case (1 c i n)
    show ?case
    proof (cases "i < length c - 1")
      case True
      then have "length c - i = Suc (Suc (length c - (i + 2)))"
        by arith
      with True "1.IH" show ?thesis
        by (subst mult_loop.simps) simp
    next
      case False
      then have "(length c - i) div 2 = 0"
        by (simp add: div_eq_0_iff)
      with False show ?thesis
        by (subst mult_loop.simps) simp
    qed
  qed
  have "length (next_level current_level) < length current_level"
    using big by (simp add: next_level_def Let_def len) arith
  with nl show "((st2, X', new_level, l + 1), (st, X, current_level, l))
      \<in> measure (\<lambda>(st, X, c, l). length c)"
    by simp
qed

declare product_tree_loop.simps [simp del]

text \<open>
  \<^verbatim>\<open>product_tree\<close> returns the number of levels; the model also returns the state
  and the caller's vector as the call leaves it.
\<close>

definition product_tree :: "mpz list \<Rightarrow> state \<Rightarrow> int \<times> state \<times> mpz list" where
  "product_tree X st =
     (case product_tree_loop st X X 0 of
        (st', X', current_level, l) \<Rightarrow>
          (let st1 = st'\<lparr>filesPerFloor := filesPerFloor st' @ [length current_level]\<rparr>;
               st2 = write_level_to_file l current_level st1
           in (l + 1, st2, X')))"

subsection \<open>The remainders\<close>

fun squares_loop :: "mpz \<Rightarrow> nat list \<Rightarrow> mpz list \<Rightarrow> error + mpz list" where
  "squares_loop Z [] R = Inr R"
| "squares_loop Z (i # is) R =
     (let sq = R ! i * R ! i
      in case mpz_tdiv_r Z sq of
           Inl e \<Rightarrow> Inl e
         | Inr r \<Rightarrow> squares_loop Z is (R[i := r]))"

definition remainders_squares :: "int \<Rightarrow> state \<Rightarrow> error + mpz list" where
  "remainders_squares levels st =
     (case read_level_from_file 0 st of
        Inl e \<Rightarrow> Inl e
      | Inr R \<Rightarrow>
          (case read_variable_from_file (levels - 1) 0 st of
             Inl e \<Rightarrow> Inl e
           | Inr Z \<Rightarrow> squares_loop Z [0..<length R] R))"

text \<open>The inner loop of the fast variant, over the files of level \<open>l\<close>.\<close>

fun partial_remainders ::
  "state \<Rightarrow> int \<Rightarrow> mpz list \<Rightarrow> nat list \<Rightarrow> mpz list \<Rightarrow> error + mpz list" where
  "partial_remainders st l R [] newR = Inr newR"
| "partial_remainders st l R (i # is) newR =
     (case read_variable_from_file l (int i) st of
        Inl e \<Rightarrow> Inl e
      | Inr y \<Rightarrow>
          (let square = y * y
           in if i div 2 < length R then
                (case mpz_tdiv_r (R ! (i div 2)) square of
                   Inl e \<Rightarrow> Inl e
                 | Inr r \<Rightarrow> partial_remainders st l R is (newR @ [r]))
              else Inl OutOfRange))"

text \<open>The outer loop \<^verbatim>\<open>for (int l = levels-2; l >= 0; l--)\<close>.\<close>

function descend :: "state \<Rightarrow> int \<Rightarrow> mpz list \<Rightarrow> error + mpz list" where
  "descend st l R =
     (if 0 \<le> l then
        (case floor_at (filesPerFloor st) l of
           Inl e \<Rightarrow> Inl e
         | Inr lengthY \<Rightarrow>
             (case partial_remainders st l R [0..<lengthY] [] of
                Inl e \<Rightarrow> Inl e
              | Inr newR \<Rightarrow> descend st (l - 1) newR))
      else Inr R)"
  by pat_completeness auto
termination
  by (relation "measure (\<lambda>(st, l, R). nat (l + 1))") auto

declare descend.simps [simp del]

definition remainders_squares_fast :: "int \<Rightarrow> state \<Rightarrow> error + mpz list" where
  "remainders_squares_fast levels st =
     (case read_level_from_file (levels - 1) st of
        Inl e \<Rightarrow> Inl e
      | Inr R \<Rightarrow>
          if int (length R) \<noteq> 1 then Inl IncompleteTree
          else descend st (levels - 2) R)"

subsection \<open>The entry point\<close>

text \<open>
  The gcd loop of \<^verbatim>\<open>main\<close> runs over the indices of \<^verbatim>\<open>input_moduli\<close> and
  updates \<open>R\<close> in place.
\<close>

fun gcd_loop :: "mpz list \<Rightarrow> nat list \<Rightarrow> mpz list \<Rightarrow> error + mpz list" where
  "gcd_loop input_moduli [] R = Inr R"
| "gcd_loop input_moduli (i # is) R =
     (if i < length R then
        (case mpz_tdiv_q (R ! i) (input_moduli ! i) of
           Inl e \<Rightarrow> Inl e
         | Inr q \<Rightarrow> gcd_loop input_moduli is (R[i := gcd q (input_moduli ! i)]))
      else Inl OutOfRange)"

definition count_compromised :: "mpz list \<Rightarrow> int" where
  "count_compromised R = foldl (\<lambda>c i. if R ! i \<noteq> 1 then c + 1 else c) 0 [0..<length R]"

text \<open>
  \<^verbatim>\<open>main\<close>, from the moduli that \<^verbatim>\<open>read_moduli_from_file\<close> (defined outside
  the two files modelled here) has put into \<^verbatim>\<open>input_moduli\<close>, and from the files \<open>d\<close> found on
  disk at start. \<^verbatim>\<open>filesPerFloor\<close> is empty at program start. The result is the final
  vector \<open>R\<close> and the printed count.
\<close>

definition main :: "mpz list \<Rightarrow> (int \<times> int \<Rightarrow> gmp_file option) \<Rightarrow> error + mpz list \<times> int" where
  "main moduli d =
     (case product_tree moduli \<lparr>filesPerFloor = [], disk = d\<rparr> of
        (levels, st, input_moduli) \<Rightarrow>
          (case remainders_squares levels st of
             Inl e \<Rightarrow> Inl e
           | Inr R \<Rightarrow>
               (case gcd_loop input_moduli [0..<length input_moduli] R of
                  Inl e \<Rightarrow> Inl e
                | Inr R' \<Rightarrow> Inr (R', count_compromised R'))))"

subsection \<open>Auxiliary functions of the proofs\<close>

text \<open>The products of the consecutive pairs of a list, dropping an unpaired last element.\<close>

fun pairs :: "mpz list \<Rightarrow> mpz list" where
  "pairs (a # b # xs) = a * b # pairs xs"
| "pairs xs = []"

text \<open>
  The levels of the tree over a level \<open>c\<close>: \<open>c\<close>, then the levels over
  \<open>next_level c\<close>, as long as there is more than one element. The second half of the
  guard always holds there (\<open>length_next_level\<close>); it makes the recursion terminate by
  construction, and \<open>tree_rec\<close> below removes it.
\<close>

function tree :: "mpz list \<Rightarrow> mpz list list" where
  "tree c =
     (if 1 < length c \<and> length (next_level c) < length c then c # tree (next_level c) else [c])"
  by pat_completeness auto
termination
  by (relation "measure length") auto

declare tree.simps [simp del]

text \<open>Recording and persisting one level, as both call sites of the source do.\<close>

definition persist :: "int \<Rightarrow> mpz list \<Rightarrow> state \<Rightarrow> state" where
  "persist l c st = write_level_to_file l c (st\<lparr>filesPerFloor := filesPerFloor st @ [length c]\<rparr>)"

fun persist_all :: "int \<Rightarrow> mpz list list \<Rightarrow> state \<Rightarrow> state" where
  "persist_all l [] st = st"
| "persist_all l (c # cs) st = persist_all (l + 1) cs (persist l c st)"


section \<open>One step of the tree: the next level\<close>

lemma mult_loop_pairs: "mult_loop c i n = n @ pairs (drop i c)"
proof (induction c i n rule: mult_loop.induct)
  case (1 c i n)
  show ?case
  proof (cases "i < length c - 1")
    case True
    then have "drop i c = c ! i # c ! (i + 1) # drop (i + 2) c"
      by (simp add: Cons_nth_drop_Suc)
    with True "1.IH" show ?thesis
      by (subst mult_loop.simps) simp
  next
    case False
    then have "length (drop i c) \<le> 1"
      by simp
    then have "pairs (drop i c) = []"
      by (cases "drop i c" rule: pairs.cases) simp_all
    with False show ?thesis
      by (subst mult_loop.simps) simp
  qed
qed

lemma next_level_Nil: "next_level [] = []"
  by (simp add: next_level_def mult_loop_pairs)

lemma next_level_single: "next_level [a] = [a]"
  by (simp add: next_level_def mult_loop_pairs)

lemma next_level_Cons2: "next_level (a # b # xs) = a * b # next_level xs"
  by (cases xs) (simp_all add: next_level_def mult_loop_pairs Let_def)

lemmas next_level_simps = next_level_Nil next_level_single next_level_Cons2

lemma length_next_level: "length (next_level c) = (length c + 1) div 2"
  by (induction c rule: pairs.induct) (simp_all add: next_level_simps)

lemma prod_list_next_level: "prod_list (next_level c) = prod_list c"
  by (induction c rule: pairs.induct) (simp_all add: next_level_simps)

lemma nth_next_level:
  "i < length (next_level c) \<Longrightarrow>
   next_level c ! i = (if 2 * i + 1 < length c then c ! (2 * i) * c ! (2 * i + 1) else c ! (2 * i))"
proof (induction c arbitrary: i rule: pairs.induct)
  case (1 a b xs)
  then show ?case
    by (cases i) (simp_all add: next_level_simps)
qed (simp_all add: next_level_simps)

lemma nonzero_next_level: "0 \<notin> set c \<Longrightarrow> 0 \<notin> set (next_level c)"
  by (induction c rule: pairs.induct) (simp_all add: next_level_simps)

section \<open>The caller's vector\<close>

lemma loop_input:
  "0 \<le> l \<Longrightarrow>
   fst (snd (product_tree_loop st X c l)) = (if 1 < length c \<and> l = 0 then [] else X)"
proof (induction st X c l rule: product_tree_loop.induct)
  case (1 st X c l)
  show ?case
  proof (cases "1 < length c")
    case True
    with 1 show ?thesis
      by (subst product_tree_loop.simps) (simp add: Let_def)
  next
    case False
    then show ?thesis
      by (subst product_tree_loop.simps) simp
  qed
qed

text \<open>
  Claim C10. \<^verbatim>\<open>product_tree\<close> leaves the caller's vector empty exactly when the
  input has at least two elements: whatever the state, the vector after the call is
  empty for two or more moduli and is the input itself otherwise; in particular a
  single modulus is still there after the call.
\<close>

theorem product_tree_empties_input_iff_two:
  "snd (snd (product_tree X st)) = (if 2 \<le> length X then [] else X)
   \<and> snd (snd (product_tree [n] st)) = [n]"
proof -
  have "snd (snd (product_tree Y st)) = fst (snd (product_tree_loop st Y Y 0))" for Y
    by (simp add: product_tree_def Let_def split: prod.splits)
  moreover have "fst (snd (product_tree_loop st Y Y 0)) = (if 1 < length Y then [] else Y)" for Y
    using loop_input [of 0 st Y Y] by simp
  ultimately have "snd (snd (product_tree Y st)) = (if 2 \<le> length Y then [] else Y)" for Y
    by auto
  from this [of X] this [of "[n]"] show ?thesis
    by simp
qed

section \<open>The levels on disk\<close>

lemma write_fold_disk:
  "n \<le> length X \<Longrightarrow>
   foldl (\<lambda>d i. d((l, int i) \<mapsto> Raw (X ! i))) d0 [0..<n] (a, b) =
     (if a = l \<and> 0 \<le> b \<and> nat b < n then Some (Raw (X ! nat b)) else d0 (a, b))"
proof (induction n)
  case 0
  then show ?case by simp
next
  case (Suc n)
  then show ?case
    by (auto simp: less_Suc_eq)
qed

lemma disk_write_level:
  "disk (write_level_to_file l X st) (a, b) =
     (if a = l \<and> 0 \<le> b \<and> nat b < length X then Some (Raw (X ! nat b)) else disk st (a, b))"
  by (simp add: write_level_to_file_def write_fold_disk)

lemma floors_write_level: "filesPerFloor (write_level_to_file l X st) = filesPerFloor st"
  by (simp add: write_level_to_file_def)

lemma tree_rec: "tree c = (if 1 < length c then c # tree (next_level c) else [c])"
proof -
  have "length (next_level c) < length c" if "1 < length c"
    using that by (simp add: length_next_level)
  then show ?thesis
    by (subst tree.simps) simp
qed

lemma tree_induct: "(\<And>c. (1 < length c \<Longrightarrow> P (next_level c)) \<Longrightarrow> P c) \<Longrightarrow> P c"
proof (induction c rule: tree.induct)
  case (1 c)
  show ?case
  proof (rule "1.prems")
    assume "1 < length c"
    moreover from this have "length (next_level c) < length c"
      by (simp add: length_next_level)
    ultimately show "P (next_level c)"
      using "1.prems" by (intro "1.IH") simp_all
  qed
qed

lemma tree_not_Nil: "tree c \<noteq> []"
  by (subst tree_rec) simp

lemma loop_tree:
  "product_tree_loop st X c l =
     (persist_all l (butlast (tree c)) st,
      fst (snd (product_tree_loop st X c l)),
      last (tree c),
      l + int (length (tree c)) - 1)"
proof (induction st X c l rule: product_tree_loop.induct)
  case (1 st X c l)
  show ?case
  proof (cases "1 < length c")
    case True
    have t: "tree c = c # tree (next_level c)"
      using True by (subst tree_rec) simp
    define st2 where
      "st2 = write_level_to_file l c (st\<lparr>filesPerFloor := filesPerFloor st @ [length c]\<rparr>)"
    define X' where "X' = (if l = 0 then [] else X)"
    have step: "product_tree_loop st X c l = product_tree_loop st2 X' (next_level c) (l + 1)"
      using True by (subst product_tree_loop.simps) (simp add: Let_def st2_def X'_def)
    have ih: "product_tree_loop st2 X' (next_level c) (l + 1) =
        (persist_all (l + 1) (butlast (tree (next_level c))) st2,
         fst (snd (product_tree_loop st2 X' (next_level c) (l + 1))),
         last (tree (next_level c)),
         l + 1 + int (length (tree (next_level c))) - 1)"
      using True by (rule "1.IH") (simp_all add: st2_def X'_def)
    have "product_tree_loop st X c l =
        (persist_all l (butlast (tree c)) st,
         fst (snd (product_tree_loop st2 X' (next_level c) (l + 1))),
         last (tree c),
         l + int (length (tree c)) - 1)"
      unfolding step
      by (subst ih) (simp add: t tree_not_Nil persist_def st2_def)
    then show ?thesis
      by (simp add: step)
  next
    case False
    have t: "tree c = [c]"
      using False by (subst tree_rec) simp
    show ?thesis
      using False by (subst (1 2) product_tree_loop.simps) (simp add: t)
  qed
qed

lemma persist_all_append: "persist_all l (cs @ ds) st = persist_all (l + int (length cs)) ds (persist_all l cs st)"
  by (induction cs arbitrary: l st) (simp_all add: add.assoc)

lemma product_tree_tree:
  "product_tree X st =
     (int (length (tree X)), persist_all 0 (tree X) st, if 2 \<le> length X then [] else X)"
proof -
  have n: "int (length (tree X) - Suc 0) = int (length (tree X)) - 1"
    using tree_not_Nil [of X] by (cases "tree X") simp_all
  have "persist_all 0 (butlast (tree X) @ [last (tree X)]) st
      = persist (int (length (tree X)) - 1) (last (tree X)) (persist_all 0 (butlast (tree X)) st)"
    by (simp add: persist_all_append n)
  then have p: "persist_all 0 (tree X) st
      = persist (int (length (tree X)) - 1) (last (tree X)) (persist_all 0 (butlast (tree X)) st)"
    by (simp add: tree_not_Nil)
  have "fst (snd (product_tree_loop st X X 0)) = (if 2 \<le> length X then [] else X)"
    using loop_input [of 0 st X X] by auto
  then show ?thesis
    by (subst product_tree_def, subst loop_tree) (simp add: Let_def p persist_def)
qed

lemma floors_persist_all:
  "filesPerFloor (persist_all l cs st) = filesPerFloor st @ map length cs"
  by (induction cs arbitrary: l st) (simp_all add: persist_def floors_write_level)

lemma disk_persist_all_below:
  "a < l \<Longrightarrow> disk (persist_all l cs st) (a, b) = disk st (a, b)"
  by (induction cs arbitrary: l st) (simp_all add: persist_def disk_write_level)

lemma disk_persist_all:
  "j < length cs \<Longrightarrow> i < length (cs ! j) \<Longrightarrow>
   disk (persist_all l cs st) (l + int j, int i) = Some (Raw (cs ! j ! i))"
proof (induction cs arbitrary: l st j)
  case Nil
  then show ?case by simp
next
  case (Cons c cs)
  show ?case
  proof (cases j)
    case 0
    with Cons.prems show ?thesis
      by (simp add: disk_persist_all_below persist_def disk_write_level)
  next
    case (Suc j')
    have eq: "l + int j = l + 1 + int j'"
      using Suc by simp
    have "disk (persist_all (l + 1) cs (persist l c st)) (l + 1 + int j', int i)
        = Some (Raw (cs ! j' ! i))"
      using Cons.prems Suc by (intro Cons.IH) simp_all
    then show ?thesis
      unfolding eq using Suc by simp
  qed
qed

lemma tree_0: "tree c ! 0 = c"
  by (subst tree_rec) simp

lemma tree_Suc: "Suc j < length (tree c) \<Longrightarrow> tree c ! Suc j = next_level (tree c ! j)"
proof (induction c arbitrary: j rule: tree_induct)
  case (1 c)
  show ?case
  proof (cases "1 < length c")
    case True
    then have t: "tree c = c # tree (next_level c)"
      by (subst tree_rec) simp
    show ?thesis
    proof (cases j)
      case 0
      then show ?thesis by (simp add: t tree_0)
    next
      case (Suc j')
      with "1.prems" have "Suc j' < length (tree (next_level c))"
        by (simp add: t)
      with True have "tree (next_level c) ! Suc j' = next_level (tree (next_level c) ! j')"
        by (rule "1.IH")
      with Suc show ?thesis by (simp add: t)
    qed
  next
    case False
    then have "tree c = [c]"
      by (subst tree_rec) simp
    with "1.prems" show ?thesis by simp
  qed
qed

lemma next_level_eq_Nil: "next_level c = [] \<longleftrightarrow> c = []"
  using length_next_level [of c] by (cases c) auto

lemma last_tree: "c \<noteq> [] \<Longrightarrow> last (tree c) = [prod_list c]"
proof (induction c rule: tree_induct)
  case (1 c)
  show ?case
  proof (cases "1 < length c")
    case True
    then have t: "tree c = c # tree (next_level c)"
      by (subst tree_rec) simp
    from "1.prems" have "next_level c \<noteq> []"
      by (simp add: next_level_eq_Nil)
    with True have "last (tree (next_level c)) = [prod_list (next_level c)]"
      by (rule "1.IH")
    then show ?thesis
      by (simp add: t tree_not_Nil prod_list_next_level)
  next
    case False
    with "1.prems" obtain a where "c = [a]"
      by (cases c) auto
    then show ?thesis
      by (subst tree_rec) simp
  qed
qed

lemma tree_levels_not_Nil: "c \<noteq> [] \<Longrightarrow> t \<in> set (tree c) \<Longrightarrow> t \<noteq> []"
proof (induction c rule: tree_induct)
  case (1 c)
  show ?case
  proof (cases "1 < length c")
    case True
    then have t: "tree c = c # tree (next_level c)"
      by (subst tree_rec) simp
    from "1.prems" have "next_level c \<noteq> []"
      by (simp add: next_level_eq_Nil)
    with True "1.IH" "1.prems" show ?thesis
      by (auto simp: t)
  next
    case False
    then have "tree c = [c]"
      by (subst tree_rec) simp
    with "1.prems" show ?thesis by simp
  qed
qed

lemma tree_levels_nonzero: "0 \<notin> set c \<Longrightarrow> t \<in> set (tree c) \<Longrightarrow> 0 \<notin> set t"
proof (induction c rule: tree_induct)
  case (1 c)
  show ?case
  proof (cases "1 < length c")
    case True
    then have t: "tree c = c # tree (next_level c)"
      by (subst tree_rec) simp
    from "1.prems" have "0 \<notin> set (next_level c)"
      by (simp add: nonzero_next_level)
    with True "1.IH" "1.prems" show ?thesis
      by (auto simp: t)
  next
    case False
    then have "tree c = [c]"
      by (subst tree_rec) simp
    with "1.prems" show ?thesis by simp
  qed
qed

lemma read_files_ok:
  "(\<And>i. i \<in> set is \<Longrightarrow> disk st (l, int i) = Some (Raw (f i))) \<Longrightarrow>
   read_files st l is m acc = Inr (acc @ map f is)"
  by (induction "is" arbitrary: m acc) (simp_all add: Let_def)

lemma floor_at_built:
  assumes "filesPerFloor st = []" and "j < length (tree X)"
  shows "floor_at (filesPerFloor (persist_all 0 (tree X) st)) (int j) = Inr (length (tree X ! j))"
  using assms by (simp add: floor_at_def floors_persist_all)

lemma read_variable_built:
  assumes "j < length (tree X)" and "i < length (tree X ! j)"
  shows "read_variable_from_file (int j) (int i) (persist_all 0 (tree X) st) = Inr (tree X ! j ! i)"
  using disk_persist_all [OF assms, of 0 st]
  by (simp add: read_variable_from_file_def)

lemma read_level_built:
  assumes "filesPerFloor st = []" and "X \<noteq> []" and "j < length (tree X)"
  shows "read_level_from_file (int j) (persist_all 0 (tree X) st) = Inr (tree X ! j)"
proof -
  let ?st = "persist_all 0 (tree X) st"
  have "read_files ?st (int j) [0..<length (tree X ! j)] 0 [] = Inr ([] @ map ((!) (tree X ! j)) [0..<length (tree X ! j)])"
    using disk_persist_all [of j "tree X" _ 0 st] assms(3)
    by (intro read_files_ok) simp
  then have r: "read_files ?st (int j) [0..<length (tree X ! j)] 0 [] = Inr (tree X ! j)"
    by (simp add: map_nth)
  have "tree X ! j \<noteq> []"
    using tree_levels_not_Nil [OF assms(2)] assms(3) by simp
  then show ?thesis
    by (simp add: read_level_from_file_def floor_at_built [OF assms(1) assms(3)] r)
qed

section \<open>The remainders of both variants\<close>

lemma smod_smod_dvd:
  fixes a m n :: int
  assumes "m dvd n" and "n \<noteq> 0"
  shows "(a smod n) smod m = a smod m"
proof -
  have m: "\<bar>a\<bar> mod \<bar>n\<bar> mod \<bar>m\<bar> = \<bar>a\<bar> mod \<bar>m\<bar>"
    using assms(1) by (simp add: mod_mod_cancel)
  have nn: "0 \<le> \<bar>a\<bar> mod \<bar>n\<bar>"
    using assms(2) by simp
  show ?thesis
  proof (cases "\<bar>a\<bar> mod \<bar>n\<bar> = 0")
    case True
    with m show ?thesis
      by (simp add: signed_modulo_int_def)
  next
    case False
    with nn have pos: "0 < \<bar>a\<bar> mod \<bar>n\<bar>"
      by linarith
    then have "a \<noteq> 0" by auto
    with pos m show ?thesis
      by (simp add: signed_modulo_int_def abs_mult sgn_mult)
  qed
qed

lemma smod_square_self:
  fixes n :: int
  assumes "2 \<le> \<bar>n\<bar>"
  shows "n smod (n * n) = n"
proof -
  have "\<bar>n\<bar> * 1 < \<bar>n\<bar> * \<bar>n\<bar>"
    using assms by (intro mult_strict_left_mono) auto
  then have "\<bar>n\<bar> mod \<bar>n * n\<bar> = \<bar>n\<bar>"
    by (simp add: abs_mult)
  then show ?thesis
    by (simp add: signed_modulo_int_def mult_sgn_abs)
qed

lemma smod_eq_mod:
  fixes a n :: int
  assumes "0 \<le> a" and "0 < n"
  shows "a smod n = a mod n"
  using assms by (cases "a = 0") (simp_all add: signed_modulo_int_def)

lemma squares_loop_ok:
  "length xs = j \<Longrightarrow> 0 \<notin> set ys \<Longrightarrow>
   squares_loop Z [j..<j + length ys] (xs @ ys) = Inr (xs @ map (\<lambda>n. Z smod (n * n)) ys)"
proof (induction ys arbitrary: xs j)
  case Nil
  then show ?case by simp
next
  case (Cons y ys)
  have u: "[j..<j + length (y # ys)] = j # [Suc j..<Suc j + length ys]"
    by (subst upt_rec) simp
  have "squares_loop Z [Suc j..<Suc j + length ys] ((xs @ [Z smod (y * y)]) @ ys)
      = Inr ((xs @ [Z smod (y * y)]) @ map (\<lambda>n. Z smod (n * n)) ys)"
    using Cons.prems by (intro Cons.IH) simp_all
  with Cons.prems show ?case
    unfolding u by (auto simp add: mpz_tdiv_r_def Let_def simp del: upt_Suc)
qed

lemma partial_remainders_ok:
  "(\<And>i. i \<in> set is \<Longrightarrow>
      read_variable_from_file l (int i) st = Inr (c i) \<and> i div 2 < length R \<and> c i \<noteq> 0) \<Longrightarrow>
   partial_remainders st l R is acc = Inr (acc @ map (\<lambda>i. R ! (i div 2) smod (c i * c i)) is)"
  by (induction "is" arbitrary: acc) (simp_all add: Let_def mpz_tdiv_r_def)

lemma partial_remainders_safe:
  "(\<And>i. i \<in> set is \<Longrightarrow>
      (\<exists>y. read_variable_from_file l (int i) st = Inr y) \<and> i div 2 < length R) \<Longrightarrow>
   partial_remainders st l R is acc = Inl DivisionByZero \<or>
   (\<exists>newR. partial_remainders st l R is acc = Inr newR \<and> length newR = length acc + length is)"
proof (induction "is" arbitrary: acc)
  case Nil
  then show ?case by simp
next
  case (Cons i "is")
  from Cons.prems [of i] obtain y where y: "read_variable_from_file l (int i) st = Inr y"
    and i: "i div 2 < length R"
    by auto
  show ?case
  proof (cases "y * y = 0")
    case True
    with y i show ?thesis
      by (simp add: Let_def mpz_tdiv_r_def)
  next
    case False
    have "partial_remainders st l R is (acc @ [R ! (i div 2) smod (y * y)]) = Inl DivisionByZero \<or>
      (\<exists>newR. partial_remainders st l R is (acc @ [R ! (i div 2) smod (y * y)]) = Inr newR \<and>
         length newR = length (acc @ [R ! (i div 2) smod (y * y)]) + length is)"
      using Cons.prems by (intro Cons.IH) simp
    with False y i show ?thesis
      by (simp add: Let_def mpz_tdiv_r_def)
  qed
qed

lemma child_dvd_parent:
  assumes "i < length c"
  shows "c ! i dvd next_level c ! (i div 2)"
proof -
  have p: "i div 2 < length (next_level c)"
    using assms by (simp add: length_next_level)
  show ?thesis
  proof (cases "even i")
    case True
    then have "2 * (i div 2) = i" by simp
    then show ?thesis
      by (simp add: nth_next_level [OF p])
  next
    case False
    then have "2 * (i div 2) + 1 = i"
      by simp
    with assms show ?thesis
      by (simp add: nth_next_level [OF p])
  qed
qed

lemma length_tree_one: "length (tree c) = Suc 0 \<longleftrightarrow> length c \<le> Suc 0"
  by (subst tree_rec) (auto simp: tree_not_Nil)

lemma root_level:
  assumes "X \<noteq> []"
  shows "tree X ! (length (tree X) - Suc 0) = [prod_list X]"
  using last_tree [OF assms] by (simp add: last_conv_nth tree_not_Nil)

lemma root_built:
  assumes "X \<noteq> []"
  shows "read_variable_from_file (int (length (tree X)) - 1) 0 (persist_all 0 (tree X) st)
         = Inr (prod_list X)"
proof -
  let ?L = "length (tree X)"
  have pos: "0 < ?L"
    using tree_not_Nil [of X] by simp
  have "read_variable_from_file (int (?L - Suc 0)) (int 0) (persist_all 0 (tree X) st)
      = Inr (tree X ! (?L - Suc 0) ! 0)"
    using pos by (intro read_variable_built) (simp_all add: root_level [OF assms])
  then show ?thesis
    using pos by (simp add: root_level [OF assms])
qed

lemma frugal_built:
  assumes fs: "filesPerFloor st = []" and ne: "X \<noteq> []" and nz: "0 \<notin> set X"
  shows "remainders_squares (int (length (tree X))) (persist_all 0 (tree X) st)
         = Inr (map (\<lambda>n. prod_list X smod (n * n)) X)"
proof -
  let ?st = "persist_all 0 (tree X) st"
  have pos: "0 < length (tree X)"
    using tree_not_Nil [of X] by simp
  have lev0: "read_level_from_file 0 ?st = Inr X"
    using read_level_built [OF fs ne pos] by (simp add: tree_0)
  have "squares_loop (prod_list X) [0..<0 + length X] ([] @ X)
      = Inr ([] @ map (\<lambda>n. prod_list X smod (n * n)) X)"
    using nz by (intro squares_loop_ok) simp_all
  then show ?thesis
    by (simp add: remainders_squares_def lev0 root_built [OF ne])
qed

lemma partial_remainders_built:
  assumes nz: "0 \<notin> set X"
    and j: "Suc j < length (tree X)"
    and len: "length R = length (tree X ! Suc j)"
    and inv: "\<And>i d. i < length R \<Longrightarrow> d dvd tree X ! Suc j ! i \<Longrightarrow>
        R ! i smod (d * d) = prod_list X smod (d * d)"
  shows "partial_remainders (persist_all 0 (tree X) st) (int j) R [0..<length (tree X ! j)] []
         = Inr (map (\<lambda>n. prod_list X smod (n * n)) (tree X ! j))"
proof -
  let ?st = "persist_all 0 (tree X) st"
  let ?c = "tree X ! j"
  have up: "tree X ! Suc j = next_level ?c"
    using j by (rule tree_Suc)
  have jl: "j < length (tree X)"
    using j by simp
  have cnz: "0 \<notin> set ?c"
    using jl by (intro tree_levels_nonzero [OF nz] nth_mem)
  have par: "i div 2 < length R" if "i < length ?c" for i
    using that by (simp add: len up length_next_level)
  have rd: "partial_remainders ?st (int j) R [0..<length ?c] []
      = Inr ([] @ map (\<lambda>i. R ! (i div 2) smod (?c ! i * ?c ! i)) [0..<length ?c])"
  proof (rule partial_remainders_ok [of "[0..<length ?c]" "int j" ?st "(!) ?c" R "[]"])
    fix i assume "i \<in> set [0..<length ?c]"
    then have i: "i < length ?c" by simp
    have "read_variable_from_file (int j) (int i) ?st = Inr (?c ! i)"
      using jl i by (rule read_variable_built)
    moreover have "i div 2 < length R"
      using i by (rule par)
    moreover have "?c ! i \<noteq> 0"
      using cnz nth_mem [OF i] by auto
    ultimately show "read_variable_from_file (int j) (int i) ?st = Inr (?c ! i)
        \<and> i div 2 < length R \<and> ?c ! i \<noteq> 0"
      by simp
  qed
  have eq: "map (\<lambda>i. R ! (i div 2) smod (?c ! i * ?c ! i)) [0..<length ?c]
      = map (\<lambda>n. prod_list X smod (n * n)) ?c"
  proof (rule nth_equalityI)
    show "length (map (\<lambda>i. R ! (i div 2) smod (?c ! i * ?c ! i)) [0..<length ?c])
        = length (map (\<lambda>n. prod_list X smod (n * n)) ?c)"
      by simp
  next
    fix i
    assume "i < length (map (\<lambda>i. R ! (i div 2) smod (?c ! i * ?c ! i)) [0..<length ?c])"
    then have i: "i < length ?c" by simp
    have "?c ! i dvd tree X ! Suc j ! (i div 2)"
      unfolding up using i by (rule child_dvd_parent)
    with par [OF i] have "R ! (i div 2) smod (?c ! i * ?c ! i) = prod_list X smod (?c ! i * ?c ! i)"
      by (rule inv)
    with i show "map (\<lambda>i. R ! (i div 2) smod (?c ! i * ?c ! i)) [0..<length ?c] ! i
        = map (\<lambda>n. prod_list X smod (n * n)) ?c ! i"
      by simp
  qed
  show ?thesis
    unfolding rd eq by simp
qed

lemma descend_built:
  assumes fs: "filesPerFloor st = []" and nz: "0 \<notin> set X"
  shows "Suc j < length (tree X) \<Longrightarrow> length R = length (tree X ! Suc j) \<Longrightarrow>
    (\<And>i d. i < length R \<Longrightarrow> d dvd tree X ! Suc j ! i \<Longrightarrow>
        R ! i smod (d * d) = prod_list X smod (d * d)) \<Longrightarrow>
    descend (persist_all 0 (tree X) st) (int j) R = Inr (map (\<lambda>n. prod_list X smod (n * n)) X)"
proof (induction j arbitrary: R)
  case 0
  have "partial_remainders (persist_all 0 (tree X) st) (int 0) R [0..<length (tree X ! 0)] []
         = Inr (map (\<lambda>n. prod_list X smod (n * n)) (tree X ! 0))"
    using nz "0.prems" by (rule partial_remainders_built)
  then have p: "partial_remainders (persist_all 0 (tree X) st) 0 R [0..<length X] []
         = Inr (map (\<lambda>n. prod_list X smod (n * n)) X)"
    by (simp add: tree_0)
  have "0 < length (tree X)"
    by (simp add: tree_not_Nil)
  with fs have "floor_at (filesPerFloor (persist_all 0 (tree X) st)) (int 0) = Inr (length (tree X ! 0))"
    by (rule floor_at_built)
  then have f: "floor_at (filesPerFloor (persist_all 0 (tree X) st)) 0 = Inr (length X)"
    by (simp add: tree_0)
  have e: "descend (persist_all 0 (tree X) st) (- 1) R' = Inr R'" for R'
    by (subst descend.simps) simp
  show ?case
    by (subst descend.simps) (simp add: p f e)
next
  case (Suc j)
  let ?c = "tree X ! Suc j"
  let ?newR = "map (\<lambda>n. prod_list X smod (n * n)) ?c"
  have jl: "Suc j < length (tree X)"
    using Suc.prems(1) by simp
  have cnz: "0 \<notin> set ?c"
    using jl by (intro tree_levels_nonzero [OF nz] nth_mem)
  have p: "partial_remainders (persist_all 0 (tree X) st) (int (Suc j)) R [0..<length ?c] []
         = Inr ?newR"
    using nz Suc.prems by (rule partial_remainders_built)
  have f: "floor_at (filesPerFloor (persist_all 0 (tree X) st)) (int (Suc j)) = Inr (length ?c)"
    using fs jl by (rule floor_at_built)
  have "descend (persist_all 0 (tree X) st) (int j) ?newR
      = Inr (map (\<lambda>n. prod_list X smod (n * n)) X)"
  proof (rule Suc.IH [OF jl])
    show "length ?newR = length ?c" by simp
  next
    fix i d
    assume i: "i < length ?newR" and d: "d dvd ?c ! i"
    then have "?c ! i \<in> set ?c"
      by (intro nth_mem) simp
    with cnz have "?c ! i \<noteq> 0"
      by auto
    moreover from d have "d * d dvd ?c ! i * ?c ! i"
      by (intro mult_dvd_mono)
    moreover have "?c ! i * ?c ! i \<noteq> 0"
      using \<open>?c ! i \<noteq> 0\<close> by simp
    ultimately have "(prod_list X smod (?c ! i * ?c ! i)) smod (d * d) = prod_list X smod (d * d)"
      by (intro smod_smod_dvd)
    with i show "?newR ! i smod (d * d) = prod_list X smod (d * d)"
      by simp
  qed
  moreover have "int (Suc j) - 1 = int j"
    by simp
  ultimately show ?case
    by (subst descend.simps) (simp only: p f sum.case of_nat_0_le_iff if_True)
qed

lemma fast_built:
  assumes fs: "filesPerFloor st = []" and ne: "X \<noteq> []" and nz: "0 \<notin> set X"
  shows "remainders_squares_fast (int (length (tree X))) (persist_all 0 (tree X) st)
         = Inr (if length X = 1 then X else map (\<lambda>n. prod_list X smod (n * n)) X)"
proof -
  let ?st = "persist_all 0 (tree X) st"
  let ?L = "length (tree X)"
  have pos: "0 < ?L"
    using tree_not_Nil [of X] by simp
  have "read_level_from_file (int (?L - Suc 0)) ?st = Inr (tree X ! (?L - Suc 0))"
    using fs ne pos by (intro read_level_built) simp_all
  then have top: "read_level_from_file (int ?L - 1) ?st = Inr [prod_list X]"
    using pos by (simp add: root_level [OF ne])
  show ?thesis
  proof (cases "length X = 1")
    case True
    then obtain n where X: "X = [n]"
      by (cases X) auto
    from True have "?L = Suc 0"
      by (simp add: length_tree_one)
    then have "descend ?st (int ?L - 2) [prod_list X] = Inr [prod_list X]"
      by (subst descend.simps) simp
    with True top show ?thesis
      by (simp add: remainders_squares_fast_def X)
  next
    case False
    with ne have "\<not> length X \<le> 1"
      by (cases X) auto
    then have "?L \<noteq> Suc 0"
      by (simp add: length_tree_one)
    with pos obtain j where L: "?L = Suc (Suc j)"
      by (cases ?L) (auto simp: gr0_conv_Suc)
    have "descend ?st (int j) [prod_list X] = Inr (map (\<lambda>n. prod_list X smod (n * n)) X)"
    proof (rule descend_built [OF fs nz])
      show "Suc j < ?L" using L by simp
      show "length [prod_list X] = length (tree X ! Suc j)"
        using root_level [OF ne] L by simp
    next
      fix i d
      assume "i < length [prod_list X]"
      then show "[prod_list X] ! i smod (d * d) = prod_list X smod (d * d)"
        by simp
    qed
    moreover have "int ?L - 2 = int j"
      using L by simp
    ultimately show ?thesis
      using False top by (simp add: remainders_squares_fast_def)
  qed
qed

lemma descend_safe:
  assumes fs: "filesPerFloor st = []"
  shows "j < length (tree X) \<Longrightarrow> length R = length (tree X ! j) \<Longrightarrow>
    descend (persist_all 0 (tree X) st) (int j - 1) R = Inl DivisionByZero \<or>
    (\<exists>R'. descend (persist_all 0 (tree X) st) (int j - 1) R = Inr R')"
proof (induction j arbitrary: R)
  case 0
  show ?case
    by (subst descend.simps, subst descend.simps) simp
next
  case (Suc j)
  let ?st = "persist_all 0 (tree X) st"
  let ?c = "tree X ! j"
  have jl: "j < length (tree X)"
    using Suc.prems(1) by simp
  have up: "tree X ! Suc j = next_level ?c"
    using Suc.prems(1) by (rule tree_Suc)
  have f: "floor_at (filesPerFloor ?st) (int j) = Inr (length ?c)"
    using fs jl by (rule floor_at_built)
  have "partial_remainders ?st (int j) R [0..<length ?c] [] = Inl DivisionByZero \<or>
    (\<exists>newR. partial_remainders ?st (int j) R [0..<length ?c] [] = Inr newR \<and>
       length newR = length ([]::mpz list) + length [0..<length ?c])"
  proof (rule partial_remainders_safe)
    fix i assume "i \<in> set [0..<length ?c]"
    then have i: "i < length ?c" by simp
    have "read_variable_from_file (int j) (int i) ?st = Inr (?c ! i)"
      using jl i by (rule read_variable_built)
    moreover have "i div 2 < length R"
      using i by (simp add: Suc.prems(2) up length_next_level)
    ultimately show "(\<exists>y. read_variable_from_file (int j) (int i) ?st = Inr y) \<and> i div 2 < length R"
      by simp
  qed
  then consider "partial_remainders ?st (int j) R [0..<length ?c] [] = Inl DivisionByZero"
    | newR where "partial_remainders ?st (int j) R [0..<length ?c] [] = Inr newR"
      and "length newR = length ?c"
    by auto
  then show ?case
  proof cases
    case 1
    with f show ?thesis
      by (subst descend.simps, subst descend.simps) simp
  next
    case 2
    have "descend ?st (int j - 1) newR = Inl DivisionByZero \<or>
      (\<exists>R'. descend ?st (int j - 1) newR = Inr R')"
      using jl 2(2) by (rule Suc.IH)
    moreover have "descend ?st (int (Suc j) - 1) R = descend ?st (int j - 1) newR"
      using f 2(1) by (subst descend.simps) simp
    ultimately show ?thesis
      by simp
  qed
qed

lemma fast_safe:
  assumes fs: "filesPerFloor st = []" and ne: "X \<noteq> []"
  shows "remainders_squares_fast (int (length (tree X))) (persist_all 0 (tree X) st) = Inl DivisionByZero \<or>
    (\<exists>R. remainders_squares_fast (int (length (tree X))) (persist_all 0 (tree X) st) = Inr R)"
proof -
  let ?st = "persist_all 0 (tree X) st"
  let ?L = "length (tree X)"
  have pos: "0 < ?L"
    using tree_not_Nil [of X] by simp
  then have pl: "?L - Suc 0 < ?L"
    by simp
  have "read_level_from_file (int (?L - Suc 0)) ?st = Inr (tree X ! (?L - Suc 0))"
    using fs ne pl by (rule read_level_built)
  moreover have n: "int (?L - Suc 0) = int ?L - 1"
    using pos by linarith
  ultimately have top: "read_level_from_file (int ?L - 1) ?st = Inr [prod_list X]"
    by (simp add: root_level [OF ne])
  have "descend ?st (int (?L - Suc 0) - 1) [prod_list X] = Inl DivisionByZero \<or>
      (\<exists>R'. descend ?st (int (?L - Suc 0) - 1) [prod_list X] = Inr R')"
    using fs pl by (rule descend_safe) (simp add: root_level [OF ne])
  moreover have "int (?L - Suc 0) - 1 = int ?L - 2"
    using pos by linarith
  ultimately show ?thesis
    by (simp add: remainders_squares_fast_def top)
qed

lemma parent_index_built:
  assumes "Suc j < length (tree X)" and "i < length (tree X ! j)"
  shows "i div 2 < length (tree X ! Suc j)"
  using assms by (simp add: tree_Suc length_next_level)





lemma squares_loop_zero:
  "length xs = j \<Longrightarrow> 0 \<in> set ys \<Longrightarrow>
   squares_loop Z [j..<j + length ys] (xs @ ys) = Inl DivisionByZero"
proof (induction ys arbitrary: xs j)
  case Nil
  then show ?case by simp
next
  case (Cons y ys)
  have u: "[j..<j + length (y # ys)] = j # [Suc j..<Suc j + length ys]"
    by (subst upt_rec) simp
  show ?case
  proof (cases "y = 0")
    case True
    with Cons.prems(1) show ?thesis
      unfolding u by (auto simp add: mpz_tdiv_r_def Let_def simp del: upt_Suc)
  next
    case False
    with Cons.prems have "squares_loop Z [Suc j..<Suc j + length ys] ((xs @ [Z smod (y * y)]) @ ys)
        = Inl DivisionByZero"
      by (intro Cons.IH) simp_all
    with False Cons.prems(1) show ?thesis
      unfolding u by (auto simp add: mpz_tdiv_r_def Let_def simp del: upt_Suc)
  qed
qed

lemma partial_remainders_zero:
  "(\<And>i. i \<in> set is \<Longrightarrow>
      read_variable_from_file l (int i) st = Inr (c i) \<and> i div 2 < length R) \<Longrightarrow>
   \<exists>i\<in>set is. c i = 0 \<Longrightarrow>
   partial_remainders st l R is acc = Inl DivisionByZero"
proof (induction "is" arbitrary: acc)
  case Nil
  then show ?case by simp
next
  case (Cons i "is")
  from Cons.prems(1) [of i] have r: "read_variable_from_file l (int i) st = Inr (c i)"
    and b: "i div 2 < length R"
    by simp_all
  show ?case
  proof (cases "c i = 0")
    case True
    with r b show ?thesis
      by (simp add: mpz_tdiv_r_def Let_def)
  next
    case False
    with Cons.prems(2) have "\<exists>k\<in>set is. c k = 0"
      by auto
    with Cons.prems(1)
    have "partial_remainders st l R is (acc @ [R ! (i div 2) smod (c i * c i)]) = Inl DivisionByZero"
      by (intro Cons.IH) simp_all
    with False r b show ?thesis
      by (simp add: mpz_tdiv_r_def Let_def)
  qed
qed

lemma prod_list_tree: "j < length (tree X) \<Longrightarrow> prod_list (tree X ! j) = prod_list X"
proof (induction j)
  case 0
  show ?case by (simp add: tree_0)
next
  case (Suc j)
  then show ?case
    by (simp add: tree_Suc prod_list_next_level)
qed

lemma frugal_zero:
  assumes fs: "filesPerFloor st = []" and ne: "X \<noteq> []" and z: "0 \<in> set X"
  shows "remainders_squares (int (length (tree X))) (persist_all 0 (tree X) st)
         = Inl DivisionByZero"
proof -
  let ?st = "persist_all 0 (tree X) st"
  have pos: "0 < length (tree X)"
    using tree_not_Nil [of X] by simp
  have lev0: "read_level_from_file 0 ?st = Inr X"
    using read_level_built [OF fs ne pos] by (simp add: tree_0)
  have "squares_loop (prod_list X) [0..<0 + length X] ([] @ X) = Inl DivisionByZero"
    using z by (intro squares_loop_zero) simp_all
  then show ?thesis
    by (simp add: remainders_squares_def lev0 root_built [OF ne])
qed

lemma fast_zero:
  assumes fs: "filesPerFloor st = []" and two: "2 \<le> length X" and z: "0 \<in> set X"
  shows "remainders_squares_fast (int (length (tree X))) (persist_all 0 (tree X) st)
         = Inl DivisionByZero"
proof -
  let ?st = "persist_all 0 (tree X) st"
  let ?L = "length (tree X)"
  from two have ne: "X \<noteq> []"
    by auto
  have pos: "0 < ?L"
    using tree_not_Nil [of X] by simp
  then have pl: "?L - Suc 0 < ?L"
    by simp
  have "read_level_from_file (int (?L - Suc 0)) ?st = Inr (tree X ! (?L - Suc 0))"
    using fs ne pl by (rule read_level_built)
  moreover have n: "int (?L - Suc 0) = int ?L - 1"
    using pos by linarith
  ultimately have top: "read_level_from_file (int ?L - 1) ?st = Inr [prod_list X]"
    by (simp add: root_level [OF ne])
  from two have "?L \<noteq> Suc 0"
    by (simp add: length_tree_one)
  with pos obtain j where L: "?L = Suc (Suc j)"
    by (cases ?L) (auto simp: gr0_conv_Suc)
  let ?c = "tree X ! j"
  have j: "Suc j < ?L" and jl: "j < ?L"
    using L by simp_all
  have rt: "tree X ! Suc j = [prod_list X]"
    using root_level [OF ne] L by simp
  have "next_level ?c = [prod_list X]"
    using tree_Suc [OF j] rt by simp
  then have "length (next_level ?c) = 1"
    by simp
  then have short: "length ?c \<le> 2"
    by (simp add: length_next_level)
  have "prod_list ?c = 0"
    using z by (simp add: prod_list_tree [OF jl] prod_list_zero_iff)
  then have "0 \<in> set ?c"
    by (simp add: prod_list_zero_iff)
  then obtain k where k: "k < length ?c" and k0: "?c ! k = 0"
    by (auto simp: in_set_conv_nth)
  have f: "floor_at (filesPerFloor ?st) (int j) = Inr (length ?c)"
    using fs jl by (rule floor_at_built)
  have "partial_remainders ?st (int j) [prod_list X] [0..<length ?c] [] = Inl DivisionByZero"
  proof (rule partial_remainders_zero [of "[0..<length ?c]" "int j" ?st "(!) ?c" "[prod_list X]" "[]"])
    fix i assume "i \<in> set [0..<length ?c]"
    then have i: "i < length ?c" by simp
    have "read_variable_from_file (int j) (int i) ?st = Inr (?c ! i)"
      using jl i by (rule read_variable_built)
    moreover from i short have "i div 2 < length [prod_list X]"
      by simp
    ultimately show "read_variable_from_file (int j) (int i) ?st = Inr (?c ! i)
        \<and> i div 2 < length [prod_list X]"
      by simp
  next
    from k k0 show "\<exists>i\<in>set [0..<length ?c]. ?c ! i = 0"
      by auto
  qed
  with f have "descend ?st (int j) [prod_list X] = Inl DivisionByZero"
    by (subst descend.simps) simp
  moreover have "int ?L - 2 = int j"
    using L by simp
  ultimately show ?thesis
    using top by (simp add: remainders_squares_fast_def)
qed

section \<open>Properties of the tree and of the remainders\<close>

lemma product_tree_built:
  assumes "product_tree X \<lparr>filesPerFloor = [], disk = d\<rparr> = (L, st, X')"
  shows "L = int (length (tree X))"
    and "st = persist_all 0 (tree X) \<lparr>filesPerFloor = [], disk = d\<rparr>"
    and "X' = (if 2 \<le> length X then [] else X)"
  using assms by (simp_all add: product_tree_tree)

lemma floors_built:
  "filesPerFloor (persist_all 0 (tree X) \<lparr>filesPerFloor = [], disk = d\<rparr>) = map length (tree X)"
  by (simp add: floors_persist_all)

lemma prod_list_pos: "(\<And>n. n \<in> set X \<Longrightarrow> (0::int) < n) \<Longrightarrow> 0 < prod_list X"
  by (induction X) simp_all

text \<open>
  Claim C4. For every input with at least one modulus, after \<^verbatim>\<open>product_tree\<close> (run
  from the program's initial state, whatever files are on disk) the manifest has \<open>L\<close>
  entries, the top level \<open>L - 1\<close> has exactly one element, and that element is the
  product of all moduli. (The moduli need not be non-zero for this.)
\<close>

theorem product_tree_root_is_product:
  assumes "X \<noteq> []"
    and "product_tree X \<lparr>filesPerFloor = [], disk = d\<rparr> = (L, st, X')"
  shows "int (length (filesPerFloor st)) = L
    \<and> floor_at (filesPerFloor st) (L - 1) = Inr 1
    \<and> read_level_from_file (L - 1) st = Inr [prod_list X]
    \<and> read_variable_from_file (L - 1) 0 st = Inr (prod_list X)"
proof -
  let ?s0 = "\<lparr>filesPerFloor = [], disk = d\<rparr>"
  let ?n = "length (tree X)"
  note b = product_tree_built [OF assms(2)]
  have pos: "0 < ?n"
    using tree_not_Nil [of X] by simp
  then have pl: "?n - Suc 0 < ?n"
    by simp
  have n: "int (?n - Suc 0) = int ?n - 1"
    using pos by linarith
  have "floor_at (filesPerFloor (persist_all 0 (tree X) ?s0)) (int (?n - Suc 0))
      = Inr (length (tree X ! (?n - Suc 0)))"
    using _ pl by (rule floor_at_built) simp
  then have f: "floor_at (filesPerFloor st) (L - 1) = Inr 1"
    by (simp add: b n root_level [OF assms(1)])
  have "read_level_from_file (int (?n - Suc 0)) (persist_all 0 (tree X) ?s0)
      = Inr (tree X ! (?n - Suc 0))"
    using _ assms(1) pl by (rule read_level_built) simp
  then have r: "read_level_from_file (L - 1) st = Inr [prod_list X]"
    by (simp add: b n root_level [OF assms(1)])
  have v: "read_variable_from_file (L - 1) 0 st = Inr (prod_list X)"
    using root_built [OF assms(1), of ?s0] by (simp add: b)
  have "int (length (filesPerFloor st)) = L"
    by (simp add: b floors_built)
  with f r v show ?thesis
    by simp
qed

theorem product_tree_root_is_product_witness:
  "[15, 77] \<noteq> ([]::mpz list)
   \<and> (\<exists>L st X'. product_tree [15, 77] \<lparr>filesPerFloor = [], disk = Map.empty\<rparr> = (L, st, X')
        \<and> read_level_from_file (L - 1) st = Inr [1155])"
proof -
  obtain L st X' where p: "product_tree [15, 77] \<lparr>filesPerFloor = [], disk = Map.empty\<rparr> = (L, st, X')"
    by (cases "product_tree [15, 77] \<lparr>filesPerFloor = [], disk = Map.empty\<rparr>") auto
  have ne: "[15, 77] \<noteq> ([]::mpz list)"
    by simp
  from product_tree_root_is_product [OF ne p]
  have "read_level_from_file (L - 1) st = Inr [1155]"
    by simp
  with p ne show ?thesis
    by blast
qed

text \<open>
  Claim C6. Every level \<open>l \<ge> 1\<close> that \<^verbatim>\<open>product_tree\<close> persists has half the
  elements of level \<open>l - 1\<close>, rounded up; its element \<open>i\<close> is the product of the
  elements \<open>2i\<close> and \<open>2i + 1\<close> of level \<open>l - 1\<close>, or element \<open>2i\<close> itself when
  \<open>2i + 1\<close> is past the end; and the unpaired last element of an odd level is the last
  element of the next level.
\<close>

theorem level_construction_and_orphan_carry:
  assumes "product_tree X \<lparr>filesPerFloor = [], disk = d\<rparr> = (L, st, X')"
    and "1 \<le> l" and "l < L"
  shows "\<exists>prev cur.
      read_level_from_file (l - 1) st = Inr prev \<and> read_level_from_file l st = Inr cur
    \<and> length cur = (length prev + 1) div 2
    \<and> (\<forall>i<length cur. cur ! i =
          (if 2 * i + 1 < length prev then prev ! (2 * i) * prev ! (2 * i + 1) else prev ! (2 * i)))
    \<and> (odd (length prev) \<longrightarrow> cur ! (length cur - 1) = prev ! (length prev - 1))"
proof -
  let ?s0 = "\<lparr>filesPerFloor = [], disk = d\<rparr>"
  note b = product_tree_built [OF assms(1)]
  define j where "j = nat (l - 1)"
  have l: "l = int (Suc j)"
    using assms(2) by (simp add: j_def)
  have j: "Suc j < length (tree X)"
    using assms(3) by (simp add: b(1) l)
  have ne: "X \<noteq> []"
  proof
    assume "X = []"
    then have "tree X = [[]]"
      by (subst tree_rec) simp
    with j show False by simp
  qed
  let ?prev = "tree X ! j" and ?cur = "tree X ! Suc j"
  have up: "?cur = next_level ?prev"
    using j by (rule tree_Suc)
  have jl: "j < length (tree X)"
    using j by simp
  have rp: "read_level_from_file (l - 1) st = Inr ?prev"
    using read_level_built [OF _ ne jl, of ?s0] by (simp add: b l)
  have rc: "read_level_from_file l st = Inr ?cur"
    using read_level_built [OF _ ne j, of ?s0] by (simp add: b l)
  have len: "length ?cur = (length ?prev + 1) div 2"
    by (simp add: up length_next_level)
  have nth: "\<forall>i<length ?cur. ?cur ! i =
      (if 2 * i + 1 < length ?prev then ?prev ! (2 * i) * ?prev ! (2 * i + 1) else ?prev ! (2 * i))"
    unfolding up by (simp add: nth_next_level)
  have "?cur ! (length ?cur - 1) = ?prev ! (length ?prev - 1)" if o: "odd (length ?prev)"
  proof -
    from o obtain k where k: "length ?prev = 2 * k + 1"
      by (auto elim: oddE)
    then have "length ?cur = k + 1"
      by (simp add: len)
    with nth k show ?thesis
      by simp
  qed
  with rp rc len nth show ?thesis
    by blast
qed

theorem level_construction_and_orphan_carry_witness:
  "\<exists>L st X' prev cur.
      product_tree [6, 10, 15] \<lparr>filesPerFloor = [], disk = Map.empty\<rparr> = (L, st, X')
    \<and> (1::int) \<le> 1 \<and> 1 < L
    \<and> read_level_from_file 0 st = Inr prev \<and> read_level_from_file 1 st = Inr cur
    \<and> prev = [6, 10, 15] \<and> length cur = 2 \<and> cur ! 0 = 60 \<and> cur ! 1 = 15"
proof -
  let ?p = "product_tree [6, 10, 15] \<lparr>filesPerFloor = [], disk = Map.empty\<rparr>"
  obtain L st X' where p: "?p = (L, st, X')"
    by (cases ?p) auto
  have "fst ?p = 3"
    by code_simp
  with p have L: "L = 3"
    by simp
  have "read_level_from_file 0 (fst (snd ?p)) = Inr [6, 10, 15]"
    by code_simp
  with p have r0: "read_level_from_file 0 st = Inr [6, 10, 15]"
    by simp
  have h1: "(1::int) \<le> 1" and h2: "1 < L"
    using L by simp_all
  from level_construction_and_orphan_carry [OF p h1 h2] r0
  obtain cur where rc: "read_level_from_file 1 st = Inr cur"
    and len: "length cur = 2"
    and nth: "\<forall>i<length cur. cur ! i =
      (if 2 * i + 1 < length [6, 10, 15 :: mpz]
       then [6, 10, 15] ! (2 * i) * [6, 10, 15] ! (2 * i + 1) else [6, 10, 15] ! (2 * i))"
    by auto
  from nth [rule_format, of 0] len have c0: "cur ! 0 = 60"
    by simp
  from nth [rule_format, of 1] len have c1: "cur ! 1 = 15"
    by simp
  from p r0 rc h2 len c0 c1 show ?thesis
    by simp
qed

text \<open>
  Claim C3, amended. For every input of non-zero moduli with at least one element, whose
  product tree \<^verbatim>\<open>product_tree\<close> has built, \<^verbatim>\<open>remainders_squares\<close> returns a vector
  \<open>R\<close> as long as the input with \<open>R[i] = (\<Prod>N[j]) % N[i]\<^sup>2\<close>, where \<^verbatim>\<open>%\<close> is the
  truncating remainder of the integer library; for positive moduli this is the
  non-negative residue \<open>(\<Prod>N[j]) mod N[i]\<^sup>2\<close>.
\<close>

theorem remainders_squares_of_nonzero_moduli:
  assumes "X \<noteq> []" and "0 \<notin> set X"
    and "product_tree X \<lparr>filesPerFloor = [], disk = d\<rparr> = (L, st, X')"
  shows "\<exists>R. remainders_squares L st = Inr R \<and> length R = length X
    \<and> (\<forall>i<length X. R ! i = prod_list X smod (X ! i * X ! i))
    \<and> ((\<forall>n\<in>set X. 0 < n) \<longrightarrow> (\<forall>i<length X. R ! i = prod_list X mod (X ! i * X ! i)))"
proof -
  let ?R = "map (\<lambda>n. prod_list X smod (n * n)) X"
  note b = product_tree_built [OF assms(3)]
  have r: "remainders_squares L st = Inr ?R"
    unfolding b by (rule frugal_built [OF _ assms(1,2)]) simp
  have "?R ! i = prod_list X mod (X ! i * X ! i)" if pos: "\<forall>n\<in>set X. 0 < n" and i: "i < length X" for i
  proof -
    from pos have "0 < prod_list X"
      by (intro prod_list_pos) simp
    moreover from pos i have "0 < X ! i"
      by simp
    ultimately have "prod_list X smod (X ! i * X ! i) = prod_list X mod (X ! i * X ! i)"
      by (intro smod_eq_mod) simp_all
    with i show ?thesis
      by simp
  qed
  with r show ?thesis
    by simp
qed

theorem remainders_squares_of_nonzero_moduli_witness:
  "[15, 77] \<noteq> ([]::mpz list) \<and> 0 \<notin> set [15, 77 :: mpz]
   \<and> (\<exists>L st X' R. product_tree [15, 77] \<lparr>filesPerFloor = [], disk = Map.empty\<rparr> = (L, st, X')
        \<and> remainders_squares L st = Inr R \<and> length R = 2 \<and> R ! 0 = 30 \<and> R ! 1 = 1155)"
proof -
  obtain L st X' where p: "product_tree [15, 77] \<lparr>filesPerFloor = [], disk = Map.empty\<rparr> = (L, st, X')"
    by (cases "product_tree [15, 77] \<lparr>filesPerFloor = [], disk = Map.empty\<rparr>") auto
  have ne: "[15, 77] \<noteq> ([]::mpz list)" and nz: "0 \<notin> set [15, 77 :: mpz]"
    by simp_all
  from remainders_squares_of_nonzero_moduli [OF ne nz p]
  obtain R where r: "remainders_squares L st = Inr R" and len: "length R = 2"
    and nth: "\<forall>i<length [15, 77 :: mpz]. R ! i = prod_list [15, 77] mod ([15, 77] ! i * [15, 77] ! i)"
    by auto
  from nth [rule_format, of 0] have r0: "R ! 0 = 30"
    by simp
  from nth [rule_format, of 1] have r1: "R ! 1 = 1155"
    by simp
  from p r len r0 r1 show ?thesis
    by simp
qed

theorem remainders_squares_zero_modulus_counterexample:
  "case product_tree [0] \<lparr>filesPerFloor = [], disk = Map.empty\<rparr> of
     (L, st, X') \<Rightarrow> remainders_squares L st = Inl DivisionByZero"
  by code_simp

text \<open>
  Claim C5, amended. For every input that has at least two moduli, or is a single modulus
  of absolute value at least 2, and whose product tree \<^verbatim>\<open>product_tree\<close> has built,
  \<^verbatim>\<open>remainders_squares\<close> and \<^verbatim>\<open>remainders_squares_fast\<close> have the same outcome:
  the same vector \<open>R\<close> when all moduli are non-zero, and the library's division by zero
  in both when some modulus is zero.
\<close>

theorem variants_agree_beyond_unit_modulus:
  assumes "X \<noteq> []" and "2 \<le> length X \<or> 2 \<le> \<bar>X ! 0\<bar>"
    and "product_tree X \<lparr>filesPerFloor = [], disk = d\<rparr> = (L, st, X')"
  shows "remainders_squares_fast L st = remainders_squares L st
    \<and> (0 \<notin> set X \<longrightarrow> (\<exists>R. remainders_squares L st = Inr R \<and> length R = length X))
    \<and> (0 \<in> set X \<longrightarrow> remainders_squares L st = Inl DivisionByZero)"
proof (cases "0 \<in> set X")
  case True
  note b = product_tree_built [OF assms(3)]
  have two: "2 \<le> length X"
  proof (rule ccontr)
    assume "\<not> 2 \<le> length X"
    moreover from assms(1) have "length X \<noteq> 0"
      by simp
    ultimately have "length X = 1"
      by linarith
    then obtain n where X: "X = [n]"
      by (cases X) auto
    with True assms(2) show False
      by simp
  qed
  have "remainders_squares L st = Inl DivisionByZero"
    unfolding b by (rule frugal_zero [OF _ assms(1) True]) simp
  moreover have "remainders_squares_fast L st = Inl DivisionByZero"
    unfolding b by (rule fast_zero [OF _ two True]) simp
  ultimately show ?thesis
    using True by simp
next
  case False
  note b = product_tree_built [OF assms(3)]
  have fr: "remainders_squares L st = Inr (map (\<lambda>n. prod_list X smod (n * n)) X)"
    unfolding b by (rule frugal_built [OF _ assms(1) False]) simp
  have fa: "remainders_squares_fast L st
      = Inr (if length X = 1 then X else map (\<lambda>n. prod_list X smod (n * n)) X)"
    unfolding b by (rule fast_built [OF _ assms(1) False]) simp
  have "remainders_squares_fast L st = remainders_squares L st"
  proof (cases "length X = 1")
    case True
    then obtain n where X: "X = [n]"
      by (cases X) auto
    with assms(2) have "n smod (n * n) = n"
      by (intro smod_square_self) simp
    with fr fa X show ?thesis
      by simp
  next
    case False
    with fr fa show ?thesis
      by simp
  qed
  with fr False show ?thesis
    by simp
qed

theorem variants_agree_beyond_unit_modulus_witness:
  "[6, 10, 15] \<noteq> ([]::mpz list)
   \<and> (2 \<le> length [6, 10, 15 :: mpz] \<or> 2 \<le> \<bar>[6, 10, 15 :: mpz] ! 0\<bar>)
   \<and> 0 \<notin> set [6, 10, 15 :: mpz]
   \<and> (\<exists>L st X' R. product_tree [6, 10, 15] \<lparr>filesPerFloor = [], disk = Map.empty\<rparr> = (L, st, X')
        \<and> remainders_squares L st = Inr R \<and> remainders_squares_fast L st = Inr R)
   \<and> 0 \<in> set [0, 5 :: mpz]
   \<and> (\<exists>L st X'. product_tree [0, 5] \<lparr>filesPerFloor = [], disk = Map.empty\<rparr> = (L, st, X')
        \<and> remainders_squares L st = Inl DivisionByZero
        \<and> remainders_squares_fast L st = Inl DivisionByZero)"
proof -
  let ?p = "product_tree [6, 10, 15] \<lparr>filesPerFloor = [], disk = Map.empty\<rparr>"
  let ?q = "product_tree [0, 5] \<lparr>filesPerFloor = [], disk = Map.empty\<rparr>"
  obtain L st X' where p: "?p = (L, st, X')"
    by (cases ?p) auto
  obtain M su Y' where q: "?q = (M, su, Y')"
    by (cases ?q) auto
  have ne: "[6, 10, 15] \<noteq> ([]::mpz list)" and nz: "0 \<notin> set [6, 10, 15 :: mpz]"
    and two: "2 \<le> length [6, 10, 15 :: mpz] \<or> 2 \<le> \<bar>[6, 10, 15 :: mpz] ! 0\<bar>"
    by simp_all
  have ne': "[0, 5] \<noteq> ([]::mpz list)" and z: "0 \<in> set [0, 5 :: mpz]"
    and two': "2 \<le> length [0, 5 :: mpz] \<or> 2 \<le> \<bar>[0, 5 :: mpz] ! 0\<bar>"
    by simp_all
  from variants_agree_beyond_unit_modulus [OF ne two p] nz
  obtain R where "remainders_squares L st = Inr R" and "remainders_squares_fast L st = Inr R"
    by auto
  moreover from variants_agree_beyond_unit_modulus [OF ne' two' q] z
  have "remainders_squares M su = Inl DivisionByZero"
    and "remainders_squares_fast M su = Inl DivisionByZero"
    by auto
  ultimately show ?thesis
    using p q ne nz two z by blast
qed

theorem variants_differ_on_modulus_one_counterexample:
  "case product_tree [1] \<lparr>filesPerFloor = [], disk = Map.empty\<rparr> of
     (L, st, X') \<Rightarrow>
       remainders_squares L st = Inr [0] \<and> remainders_squares_fast L st = Inr [1]"
  by code_simp

text \<open>
  Claim C9. In \<^verbatim>\<open>remainders_squares_fast\<close>, run on the tree that \<^verbatim>\<open>product_tree\<close>
  built from any input with at least one modulus, no vector access is past the end: the
  run never yields \<open>OutOfRange\<close>, the value of the model for such an access. The reason
  is in the manifest: when the descent is at level \<open>l\<close>, \<open>R\<close> has the length of level
  \<open>l + 1\<close>, and every index \<open>i\<close> of level \<open>l\<close> has \<open>i div 2\<close> below that length, also
  when level \<open>l\<close> ends in an orphan.
\<close>

theorem fast_parent_index_in_bounds:
  assumes "X \<noteq> []"
    and "product_tree X \<lparr>filesPerFloor = [], disk = d\<rparr> = (L, st, X')"
  shows "remainders_squares_fast L st \<noteq> Inl OutOfRange
    \<and> (\<forall>l i. 0 \<le> l \<and> l \<le> L - 2 \<and> i < filesPerFloor st ! nat l
          \<longrightarrow> i div 2 < filesPerFloor st ! nat (l + 1))"
proof -
  note b = product_tree_built [OF assms(2)]
  have "remainders_squares_fast L st = Inl DivisionByZero \<or>
      (\<exists>R. remainders_squares_fast L st = Inr R)"
    unfolding b by (rule fast_safe [OF _ assms(1)]) simp
  then have safe: "remainders_squares_fast L st \<noteq> Inl OutOfRange"
    by auto
  have "i div 2 < filesPerFloor st ! nat (l + 1)"
    if "0 \<le> l" and "l \<le> L - 2" and "i < filesPerFloor st ! nat l" for l i
  proof -
    define j where "j = nat l"
    have j: "Suc j < length (tree X)"
      using that(1,2) by (simp add: b(1) j_def)
    have s: "nat (l + 1) = Suc j"
      using that(1) by (simp add: j_def nat_add_distrib)
    from that(3) j have "i < length (tree X ! j)"
      by (simp add: b(2) floors_built j_def [symmetric])
    with j have "i div 2 < length (tree X ! Suc j)"
      by (rule parent_index_built)
    with j show ?thesis
      by (simp add: b(2) floors_built s)
  qed
  with safe show ?thesis
    by blast
qed

theorem fast_parent_index_in_bounds_witness:
  "[6, 10, 15] \<noteq> ([]::mpz list)
   \<and> (\<exists>L st X'. product_tree [6, 10, 15] \<lparr>filesPerFloor = [], disk = Map.empty\<rparr> = (L, st, X')
        \<and> remainders_squares_fast L st \<noteq> Inl OutOfRange
        \<and> (2::nat) div 2 < filesPerFloor st ! 1)"
proof -
  let ?p = "product_tree [6, 10, 15] \<lparr>filesPerFloor = [], disk = Map.empty\<rparr>"
  obtain L st X' where p: "?p = (L, st, X')"
    by (cases ?p) auto
  have ne: "[6, 10, 15] \<noteq> ([]::mpz list)"
    by simp
  have "fst ?p = 3"
    by code_simp
  with p have L: "L = 3"
    by simp
  have "filesPerFloor (fst (snd ?p)) = [3, 2, 1]"
    by code_simp
  with p have fl: "filesPerFloor st = [3, 2, 1]"
    by simp
  note t = fast_parent_index_in_bounds [OF ne p]
  from t have safe: "remainders_squares_fast L st \<noteq> Inl OutOfRange"
    by simp
  from t have "0 \<le> (0::int) \<and> 0 \<le> L - 2 \<and> 2 < filesPerFloor st ! nat 0
      \<longrightarrow> 2 div 2 < filesPerFloor st ! nat (0 + 1)"
    by blast
  with L fl have "(2::nat) div 2 < filesPerFloor st ! 1"
    by simp
  with p ne safe show ?thesis
    by blast
qed

section \<open>Properties of the level store and of the entry point\<close>

text \<open>
  Claim C7, amended. For every level index \<open>l\<close> and every non-empty sequence \<open>v\<close>, in a
  state whose manifest gives \<open>|v|\<close> for level \<open>l\<close> (as \<^verbatim>\<open>product_tree\<close> records it
  before each write), writing \<open>v\<close> with \<^verbatim>\<open>write_level_to_file\<close> and reading the level
  back with \<^verbatim>\<open>read_level_from_file\<close> yields \<open>v\<close>, element by element and in order,
  whatever was on disk before.
\<close>

theorem level_round_trip:
  assumes "floor_at (filesPerFloor st) l = Inr (length v)" and "v \<noteq> []"
  shows "read_level_from_file l (write_level_to_file l v st) = Inr v"
proof -
  have "read_files (write_level_to_file l v st) l [0..<length v] 0 []
      = Inr ([] @ map ((!) v) [0..<length v])"
    by (rule read_files_ok) (simp add: disk_write_level)
  then have "read_files (write_level_to_file l v st) l [0..<length v] 0 [] = Inr v"
    by (simp add: map_nth)
  with assms show ?thesis
    by (simp add: read_level_from_file_def floors_write_level)
qed

theorem level_round_trip_witness:
  "floor_at (filesPerFloor \<lparr>filesPerFloor = [3, 2], disk = Map.empty\<rparr>) 1 = Inr (length [5, 7 :: mpz])
   \<and> [5, 7] \<noteq> ([]::mpz list)
   \<and> read_level_from_file 1 (write_level_to_file 1 [5, 7] \<lparr>filesPerFloor = [3, 2], disk = Map.empty\<rparr>)
       = Inr [5, 7]"
proof -
  have h: "floor_at (filesPerFloor \<lparr>filesPerFloor = [3, 2], disk = Map.empty\<rparr>) 1
      = Inr (length [5, 7 :: mpz])"
    by (simp add: floor_at_def)
  have ne: "[5, 7] \<noteq> ([]::mpz list)"
    by simp
  from level_round_trip [OF h ne] h ne show ?thesis
    by blast
qed

theorem empty_level_round_trip_counterexample:
  "read_level_from_file 0 (write_level_to_file 0 [] \<lparr>filesPerFloor = [0], disk = Map.empty\<rparr>)
     = Inl OutOfRange
   \<and> read_level_from_file 0 (write_level_to_file 0 [] \<lparr>filesPerFloor = [0], disk = Map.empty\<rparr>)
     \<noteq> Inr []"
  by (simp add: read_level_from_file_def write_level_to_file_def floor_at_def)




text \<open>
  The gcd stage of \<^verbatim>\<open>main\<close> runs over \<^verbatim>\<open>input_moduli\<close>, which \<^verbatim>\<open>product_tree\<close>
  has emptied when there were two moduli or more: the loop body is never run, and the
  result is the vector of remainders as \<^verbatim>\<open>remainders_squares\<close> left it.
\<close>

lemma main_two_or_more:
  assumes "2 \<le> length X" and "0 \<notin> set X"
  shows "main X d = Inr (map (\<lambda>n. prod_list X smod (n * n)) X,
                         count_compromised (map (\<lambda>n. prod_list X smod (n * n)) X))"
proof -
  from assms(1) have ne: "X \<noteq> []"
    by auto
  have "remainders_squares (int (length (tree X)))
          (persist_all 0 (tree X) \<lparr>filesPerFloor = [], disk = d\<rparr>)
        = Inr (map (\<lambda>n. prod_list X smod (n * n)) X)"
    by (rule frugal_built [OF _ ne assms(2)]) simp
  with assms(1) show ?thesis
    by (simp add: main_def product_tree_tree)
qed

text \<open>
  Claim C1 (not met by the code). On the input \<open>[15, 77]\<close> the entry point ends with
  \<open>R = [30, 1155]\<close>: \<open>R[0] = 30\<close> does not divide \<open>N[0] = 15\<close>, and \<open>R[0] > 1\<close> although
  \<open>gcd(15, 77) = 1\<close>.
\<close>

theorem main_leaves_remainders_unreduced:
  "case main [15, 77] Map.empty of
     Inl e \<Rightarrow> False
   | Inr (R, c) \<Rightarrow> \<not> R ! 0 dvd 15 \<and> 1 < R ! 0 \<and> \<not> 1 < gcd (15::int) 77"
  by code_simp

text \<open>
  Claim C2 (not met by the code). Scenario S1: on \<open>[15, 77]\<close> the remainders after
  \<^verbatim>\<open>remainders_squares\<close> are \<open>[30, 1155]\<close> as expected and \<^verbatim>\<open>input_moduli\<close> is
  empty by then; \<^verbatim>\<open>main\<close> ends with \<open>R = [30, 1155]\<close> and the count 2, where the
  scenario expects \<open>[1, 1]\<close> and 0.
\<close>

theorem main_scenario_S1:
  "(case product_tree [15, 77] \<lparr>filesPerFloor = [], disk = Map.empty\<rparr> of
      (L, st, X') \<Rightarrow> remainders_squares L st = Inr [30, 1155] \<and> X' = [])
   \<and> main [15, 77] Map.empty = Inr ([30, 1155], 2)"
  by code_simp

end
